theory Spec2Isabelle
  imports Complex_Main "HOL-Library.Product_Lexorder"
begin

section \<open>Calendar dates\<close>

text \<open>
  The calculator works on \<open>pandas.Timestamp\<close> values that carry calendar dates.
  A date is modelled by its three fields; Python's integers are unbounded, so the fields
  are \<open>int\<close>. The range limits of \<open>Timestamp\<close> (years 1677 to 2262) are not
  modelled: dates are proleptic Gregorian dates of any year. Amounts are \<open>float64\<close> in
  the source and exact rationals here.
\<close>

record date =
  year :: int
  month :: int
  day :: int

definition mk_date :: "int \<Rightarrow> int \<Rightarrow> int \<Rightarrow> date" where
  "mk_date y m d = \<lparr>year = y, month = m, day = d\<rparr>"

text \<open>\<open>calendar.isleap\<close> and the second component of \<open>calendar.monthrange\<close>.\<close>

definition isleap :: "int \<Rightarrow> bool" where
  "isleap y \<longleftrightarrow> y mod 4 = 0 \<and> (y mod 100 \<noteq> 0 \<or> y mod 400 = 0)"

definition days_in_month :: "int \<Rightarrow> int \<Rightarrow> int" where
  "days_in_month y m =
     (if m = 2 then (if isleap y then 29 else 28)
      else if m = 4 \<or> m = 6 \<or> m = 9 \<or> m = 11 then 30
      else 31)"

definition valid_date :: "date \<Rightarrow> bool" where
  "valid_date d \<longleftrightarrow>
     1 \<le> month d \<and> month d \<le> 12 \<and> 1 \<le> day d \<and> day d \<le> days_in_month (year d) (month d)"

text \<open>Dates compare field by field, year first (the order of \<open>datetime\<close>).\<close>

definition date_key :: "date \<Rightarrow> int \<times> int \<times> int" where
  "date_key d = (year d, month d, day d)"

definition date_le :: "date \<Rightarrow> date \<Rightarrow> bool" where
  "date_le a b \<longleftrightarrow> date_key a \<le> date_key b"

definition date_lt :: "date \<Rightarrow> date \<Rightarrow> bool" where
  "date_lt a b \<longleftrightarrow> date_key a < date_key b"

text \<open>Adding \<open>datetime.timedelta(days=1)\<close>: the next calendar day.\<close>

definition next_day :: "date \<Rightarrow> date" where
  "next_day d =
     (if day d < days_in_month (year d) (month d) then d\<lparr>day := day d + 1\<rparr>
      else if month d < 12 then d\<lparr>month := month d + 1, day := 1\<rparr>
      else \<lparr>year = year d + 1, month = 1, day = 1\<rparr>)"

subsection \<open>\<open>dateutil.relativedelta\<close>\<close>

text \<open>
  Only the relative fields \<open>years\<close>, \<open>months\<close> and \<open>days\<close> are used by the calculator.
  \<open>days\<close> is never negative there.
\<close>

record relativedelta =
  rd_years :: int
  rd_months :: int
  rd_days :: nat

text \<open>
  \<open>relativedelta._set_months\<close>: a month count is split into years and months of the same
  sign, months staying within \<open>-11..11\<close>.
\<close>

definition set_months :: "int \<Rightarrow> relativedelta" where
  "set_months m =
     (if \<bar>m\<bar> > 11
      then \<lparr>rd_years = sgn m * (\<bar>m\<bar> div 12), rd_months = sgn m * (\<bar>m\<bar> mod 12), rd_days = 0\<rparr>
      else \<lparr>rd_years = 0, rd_months = m, rd_days = 0\<rparr>)"

text \<open>
  \<open>relativedelta.__radd__\<close>: years and months are added to the fields, the month wraps
  around once, the day is cut to the length of the resulting month, and the days are added
  last.
\<close>

definition plus_relativedelta :: "date \<Rightarrow> relativedelta \<Rightarrow> date" where
  "plus_relativedelta dt rd =
     (let y0 = year dt + rd_years rd;
          m0 = month dt + rd_months rd;
          y = (if rd_months rd \<noteq> 0 \<and> m0 > 12 then y0 + 1
               else if rd_months rd \<noteq> 0 \<and> m0 < 1 then y0 - 1 else y0);
          m = (if rd_months rd \<noteq> 0 \<and> m0 > 12 then m0 - 12
               else if rd_months rd \<noteq> 0 \<and> m0 < 1 then m0 + 12 else m0);
          dd = min (days_in_month y m) (day dt)
      in (next_day ^^ rd_days rd) \<lparr>year = y, month = m, day = dd\<rparr>)"

text \<open>
  \<open>relativedelta(dt1, dt2)\<close>: the difference of two dates. The constructor starts from the
  difference of the year and month fields and moves it by one month while \<open>dt2\<close> plus that
  many months lies beyond \<open>dt1\<close>. For two calendar dates the adjustment happens at most
  once (lemma \<open>relativedelta_adjust_once\<close> below), which is what is written here.
\<close>

definition relativedelta_months :: "date \<Rightarrow> date \<Rightarrow> int" where
  "relativedelta_months dt1 dt2 =
     (let months = (year dt1 - year dt2) * 12 + (month dt1 - month dt2);
          dtm = plus_relativedelta dt2 (set_months months)
      in if date_lt dt1 dt2
         then (if date_lt dtm dt1 then months + 1 else months)
         else (if date_lt dt1 dtm then months - 1 else months))"

definition relativedelta_between :: "date \<Rightarrow> date \<Rightarrow> relativedelta" where
  "relativedelta_between dt1 dt2 = set_months (relativedelta_months dt1 dt2)"

subsection \<open>Month ends\<close>

text \<open>\<open>Timestamp.is_month_end\<close> and adding \<open>pd.offsets.MonthEnd()\<close>.\<close>

definition is_month_end :: "date \<Rightarrow> bool" where
  "is_month_end d \<longleftrightarrow> day d = days_in_month (year d) (month d)"

definition plus_MonthEnd :: "date \<Rightarrow> date" where
  "plus_MonthEnd d =
     (if is_month_end d
      then (let y = (if month d < 12 then year d else year d + 1);
                m = (if month d < 12 then month d + 1 else 1)
            in \<lparr>year = y, month = m, day = days_in_month y m\<rparr>)
      else d\<lparr>day := days_in_month (year d) (month d)\<rparr>)"

text \<open>\<open>PensionCalculator._get_last_day_of_month\<close>\<close>

definition get_last_day_of_month :: "date \<Rightarrow> date" where
  "get_last_day_of_month d = (if \<not> is_month_end d then plus_MonthEnd d else d)"

section \<open>The calculator\<close>

text \<open>
  A row of the joined frame \<open>_user_data\<close>: the index (the contract number) and the
  columns the calculation reads. The column with the participant's sex is never read.
\<close>

type_synonym contract_id = int

record row =
  contract :: contract_id
  birthdate :: date
  pension_start :: int
  pension_amount :: rat

text \<open>The three entries of the parameter dictionary.\<close>

record params =
  START_DATE :: date
  PENSION_INDEXING_RATE :: rat
  MAX_AGE :: int

text \<open>\<open>PensionCalculator._calculate_start_date\<close>\<close>

definition calculate_start_date :: "params \<Rightarrow> row \<Rightarrow> date" where
  "calculate_start_date p r =
     (let on_pension = (rd_years (relativedelta_between (START_DATE p) (birthdate r)) \<ge> pension_start r);
          start_date = START_DATE p
      in if \<not> on_pension
         then get_last_day_of_month
                (plus_relativedelta (birthdate r) \<lparr>rd_years = pension_start r, rd_months = 0, rd_days = 0\<rparr>)
         else start_date)"

text \<open>
  \<open>PensionCalculator._preprocess_contract_data\<close> adds the columns \<open>start_date\<close> and
  \<open>end_date\<close> to every row of the frame.
\<close>

record prow = row +
  start_date :: date
  end_date :: date

definition preprocess_row :: "params \<Rightarrow> row \<Rightarrow> prow" where
  "preprocess_row p r =
     row.extend r
       \<lparr>start_date = calculate_start_date p r,
        end_date = plus_relativedelta (birthdate r) \<lparr>rd_years = MAX_AGE p, rd_months = 0, rd_days = 1\<rparr>\<rparr>"

definition preprocess_contract_data :: "params \<Rightarrow> row list \<Rightarrow> prow list" where
  "preprocess_contract_data p rows = map (preprocess_row p) rows"

subsection \<open>Indexing and rounding\<close>

text \<open>
  The dictionary \<open>_indexing_month\<close> built in \<open>__init__\<close>, and \<open>dict.get\<close> with a default.
\<close>

definition indexing_month_of :: "params \<Rightarrow> (int \<rightharpoonup> rat)" where
  "indexing_month_of p = [1 \<mapsto> PENSION_INDEXING_RATE p]"

definition dict_get :: "('k \<rightharpoonup> 'v) \<Rightarrow> 'k \<Rightarrow> 'v \<Rightarrow> 'v" where
  "dict_get m k dflt = (case m k of None \<Rightarrow> dflt | Some v \<Rightarrow> v)"

text \<open>
  \<open>np.round(x, decimals)\<close>: scale, round to the nearest integer with ties going to the
  even one, scale back. The arithmetic is exact here.
\<close>

definition rint :: "rat \<Rightarrow> int" where
  "rint x =
     (let f = \<lfloor>x\<rfloor>; r = x - of_int f
      in if r < 1 / 2 then f
         else if r > 1 / 2 then f + 1
         else if even f then f else f + 1)"

definition np_round :: "rat \<Rightarrow> nat \<Rightarrow> rat" where
  "np_round x decimals = of_int (rint (x * 10 ^ decimals)) / 10 ^ decimals"

subsection \<open>The payment loop\<close>

text \<open>One dictionary appended to \<open>data\<close>: a line of the payment schedule.\<close>

record entry =
  CONTRACT_NUMBER :: contract_id
  DATE_OF_PAYMENT :: date
  PENSION_AMOUNT :: rat

text \<open>The body of the \<open>while\<close> loop, statement by statement.\<close>

definition index_payment :: "(int \<rightharpoonup> rat) \<Rightarrow> date \<Rightarrow> rat \<Rightarrow> rat" where
  "index_payment idx payment_date payment =
     np_round (payment * (1 + dict_get idx (month payment_date) 0)) 2"

definition next_payment_date :: "date \<Rightarrow> date" where
  "next_payment_date payment_date =
     get_last_day_of_month
       (plus_relativedelta payment_date \<lparr>rd_years = 0, rd_months = 1, rd_days = 0\<rparr>)"

text \<open>
  The \<open>while\<close> loop of \<open>calculate\<close> for one contract. \<open>None\<close> stands for a loop that never
  ends.
\<close>

partial_function (option) payment_loop ::
  "(int \<rightharpoonup> rat) \<Rightarrow> contract_id \<Rightarrow> date \<Rightarrow> date \<Rightarrow> rat \<Rightarrow> entry list \<Rightarrow> entry list option"
where
  "payment_loop idx c row_end payment_date payment data =
     (if date_le payment_date row_end
      then payment_loop idx c row_end (next_payment_date payment_date)
             (index_payment idx payment_date payment)
             (data @ [\<lparr>CONTRACT_NUMBER = c, DATE_OF_PAYMENT = payment_date,
                       PENSION_AMOUNT = index_payment idx payment_date payment\<rparr>])
      else Some data)"

text \<open>The \<open>for\<close> loop over the rows: every contract appends to the same list.\<close>

fun iterrows_loop :: "(int \<rightharpoonup> rat) \<Rightarrow> prow list \<Rightarrow> entry list \<Rightarrow> entry list option" where
  "iterrows_loop idx [] data = Some data"
| "iterrows_loop idx (r # rs) data =
     (case payment_loop idx (contract r) (end_date r) (start_date r) (pension_amount r) data of
        None \<Rightarrow> None
      | Some data' \<Rightarrow> iterrows_loop idx rs data')"

subsection \<open>The ledger\<close>

datatype error = ValueError | KeyError

text \<open>
  \<open>pd.DataFrame(data).sort_values([date column, contract column])\<close>: a stable sort
  by the pair of payment date and contract number. A frame built from an empty list has no
  columns, and sorting it by a column name raises \<open>KeyError\<close>.
\<close>

definition entry_key :: "entry \<Rightarrow> (int \<times> int \<times> int) \<times> contract_id" where
  "entry_key e = (date_key (DATE_OF_PAYMENT e), CONTRACT_NUMBER e)"

definition sort_values :: "entry list \<Rightarrow> error + entry list" where
  "sort_values data = (if data = [] then Inl KeyError else Inr (sort_key entry_key data))"

text \<open>
  The object: the joined frame, the parameters, the indexing dictionary and the cached
  result, \<open>None\<close> until a calculation has finished. The two columns that
  \<open>_preprocess_contract_data\<close> writes into the frame are a function of the other columns
  and the parameters; they are computed where they are read and not kept in the state.
\<close>

record calculator =
  user_data :: "row list"
  calc_params :: params
  indexing_month :: "int \<rightharpoonup> rat"
  result_df :: "entry list option"

definition init :: "row list \<Rightarrow> params \<Rightarrow> calculator" where
  "init rows p =
     \<lparr>user_data = rows, calc_params = p, indexing_month = indexing_month_of p, result_df = None\<rparr>"

text \<open>
  \<open>PensionCalculator.calculate\<close>. The test \<open>if self._result_df:\<close> takes the truth value
  of the field: \<open>None\<close> is false, and the truth value of a \<open>DataFrame\<close> is a \<open>ValueError\<close>
  whatever the frame holds, so the \<open>return\<close> under the test is never reached. The outer
  \<open>option\<close> is \<open>None\<close> when a loop does not end.
\<close>

definition calculate :: "calculator \<Rightarrow> (error + entry list \<times> calculator) option" where
  "calculate self =
     (case result_df self of
        Some df \<Rightarrow> Some (Inl ValueError)
      | None \<Rightarrow>
          (case iterrows_loop (indexing_month self)
                  (preprocess_contract_data (calc_params self) (user_data self)) [] of
             None \<Rightarrow> None
           | Some data \<Rightarrow>
               (case sort_values data of
                  Inl err \<Rightarrow> Some (Inl err)
                | Inr df \<Rightarrow> Some (Inr (df, self\<lparr>result_df := Some df\<rparr>)))))"

section \<open>The loop in closed form\<close>

text \<open>
  The entries one contract contributes, as a total function on calendar dates. The loop
  above is shown to return exactly these (lemma \<open>payment_loop_schedule\<close>).
\<close>

function schedule :: "(int \<rightharpoonup> rat) \<Rightarrow> contract_id \<Rightarrow> date \<Rightarrow> date \<Rightarrow> rat \<Rightarrow> entry list" where
  "schedule idx c row_end payment_date payment =
     (if valid_date payment_date \<and> date_le payment_date row_end
      then \<lparr>CONTRACT_NUMBER = c, DATE_OF_PAYMENT = payment_date,
            PENSION_AMOUNT = index_payment idx payment_date payment\<rparr>
           # schedule idx c row_end (next_payment_date payment_date)
               (index_payment idx payment_date payment)
      else [])"
  by pat_completeness auto

termination schedule
proof (relation "(\<lambda>(idx, c, e, d, p). nat (year e + 1 - year d)) <*mlex*>
                 measure (\<lambda>(idx, c, e, d, p). nat (12 - month d))", goal_cases)
  case 1
  show ?case by (simp add: wf_mlex)
next
  case (2 idx c row_end payment_date payment)
  then have v: "valid_date payment_date" and le: "date_le payment_date row_end"
    by simp_all
  from le have y: "year payment_date \<le> year row_end"
    by (auto simp: date_le_def date_key_def less_eq_prod_def)
  from v have m: "1 \<le> month payment_date" "month payment_date \<le> 12"
    by (simp_all add: valid_date_def)
  from v have ny: "year (next_payment_date payment_date) =
      (if month payment_date = 12 then year payment_date + 1 else year payment_date)"
    and nm: "month (next_payment_date payment_date) =
      (if month payment_date = 12 then 1 else month payment_date + 1)"
    by (auto simp: next_payment_date_def get_last_day_of_month_def plus_MonthEnd_def
        plus_relativedelta_def valid_date_def Let_def is_month_end_def)
  show ?case
  proof (cases "month payment_date = 12")
    case True
    with y show ?thesis
      by (simp add: mlex_iff ny nm)
  next
    case False
    with y m show ?thesis
      by (simp add: mlex_iff ny nm)
  qed
qed

declare schedule.simps [simp del]

text \<open>
  The list \<open>data\<close> at the end of the \<open>for\<close> loop: the contracts' entries one after the
  other, in the order of the rows.
\<close>

definition row_schedule :: "(int \<rightharpoonup> rat) \<Rightarrow> prow \<Rightarrow> entry list" where
  "row_schedule idx r = schedule idx (contract r) (end_date r) (start_date r) (pension_amount r)"

definition ledger_data :: "calculator \<Rightarrow> entry list" where
  "ledger_data self =
     concat (map (row_schedule (indexing_month self))
               (preprocess_contract_data (calc_params self) (user_data self)))"

text \<open>
  Well-formed input: the report date and the birth dates are calendar dates, as every
  \<open>Timestamp\<close> is.
\<close>

definition wf_input :: "calculator \<Rightarrow> bool" where
  "wf_input self \<longleftrightarrow>
     valid_date (START_DATE (calc_params self)) \<and>
     (\<forall>r \<in> set (user_data self). valid_date (birthdate r))"

subsection \<open>The specification's date arithmetic\<close>

text \<open>
  These follow the words of the specification, to be compared with what the code computes
  through \<open>relativedelta\<close>. ``Birth date plus \<open>n\<close> years'' keeps month and day and cuts
  the day to the length of the month (29 February becomes 28 February in a common year);
  ``the last day of the month containing a date'' replaces the day by the length of its
  month; the ``whole elapsed years'' from the birth date to the report date are the
  difference of the years, less one when the report date lies before the anniversary in its
  year.
\<close>

definition anniversary :: "date \<Rightarrow> int \<Rightarrow> date" where
  "anniversary b n =
     \<lparr>year = year b + n, month = month b,
      day = min (days_in_month (year b + n) (month b)) (day b)\<rparr>"

definition last_day_of_month_containing :: "date \<Rightarrow> date" where
  "last_day_of_month_containing d = d\<lparr>day := days_in_month (year d) (month d)\<rparr>"

definition whole_years_elapsed :: "date \<Rightarrow> date \<Rightarrow> int" where
  "whole_years_elapsed report birth =
     (year report - year birth)
     - (if date_lt report (anniversary birth (year report - year birth)) then 1 else 0)"

subsection \<open>A small portfolio\<close>

text \<open>
  Two contracts already past the pension age at the report date, and the ledger the
  calculation gives for them.
\<close>

definition example_params :: params where
  "example_params = \<lparr>START_DATE = mk_date 2024 1 1, PENSION_INDEXING_RATE = 5 / 100, MAX_AGE = 64\<rparr>"

definition example_rows :: "row list" where
  "example_rows =
     [\<lparr>contract = 2, birthdate = mk_date 1960 2 20, pension_start = 60, pension_amount = 2000\<rparr>,
      \<lparr>contract = 1, birthdate = mk_date 1960 5 15, pension_start = 60, pension_amount = 1000\<rparr>]"

definition example_ledger :: "entry list" where
  "example_ledger =
     [\<lparr>CONTRACT_NUMBER = 1, DATE_OF_PAYMENT = mk_date 2024 1 1, PENSION_AMOUNT = 1050\<rparr>,
      \<lparr>CONTRACT_NUMBER = 2, DATE_OF_PAYMENT = mk_date 2024 1 1, PENSION_AMOUNT = 2100\<rparr>,
      \<lparr>CONTRACT_NUMBER = 1, DATE_OF_PAYMENT = mk_date 2024 2 29, PENSION_AMOUNT = 1050\<rparr>,
      \<lparr>CONTRACT_NUMBER = 1, DATE_OF_PAYMENT = mk_date 2024 3 31, PENSION_AMOUNT = 1050\<rparr>,
      \<lparr>CONTRACT_NUMBER = 1, DATE_OF_PAYMENT = mk_date 2024 4 30, PENSION_AMOUNT = 1050\<rparr>]"

section \<open>Calendar facts\<close>

lemma days_in_month_pos: "1 \<le> days_in_month y m"
  by (simp add: days_in_month_def)

lemma date_le_year: "date_le d e \<Longrightarrow> year d \<le> year e"
  by (auto simp: date_le_def date_key_def less_eq_prod_def)

lemma next_payment_date_fields:
  assumes "valid_date d"
  shows "year (next_payment_date d) = (if month d = 12 then year d + 1 else year d)"
    and "month (next_payment_date d) = (if month d = 12 then 1 else month d + 1)"
    and "day (next_payment_date d) =
           days_in_month (year (next_payment_date d)) (month (next_payment_date d))"
  using assms
  by (auto simp: next_payment_date_def get_last_day_of_month_def plus_MonthEnd_def
      plus_relativedelta_def valid_date_def Let_def is_month_end_def)

lemma valid_next_payment_date: "valid_date d \<Longrightarrow> valid_date (next_payment_date d)"
  using days_in_month_pos [of "year (next_payment_date d)" "month (next_payment_date d)"]
  by (simp add: valid_date_def next_payment_date_fields)

lemma is_month_end_next_payment_date: "valid_date d \<Longrightarrow> is_month_end (next_payment_date d)"
  by (simp add: is_month_end_def next_payment_date_fields(3))

lemma date_lt_next_payment_date: "valid_date d \<Longrightarrow> date_lt d (next_payment_date d)"
  by (auto simp: date_lt_def date_key_def less_prod_def next_payment_date_fields)

section \<open>The loop returns the closed form\<close>

lemma payment_loop_schedule:
  "valid_date d \<Longrightarrow> payment_loop idx c e d pay data = Some (data @ schedule idx c e d pay)"
proof (induction idx c e d pay arbitrary: data rule: schedule.induct)
  case (1 idx c row_end payment_date payment)
  show ?case
  proof (cases "date_le payment_date row_end")
    case True
    with 1 show ?thesis
      by (subst payment_loop.simps, subst schedule.simps) (simp add: valid_next_payment_date)
  next
    case False
    then show ?thesis
      by (subst payment_loop.simps, subst schedule.simps) simp
  qed
qed

section \<open>Entries of one contract\<close>

lemma schedule_stop: "\<not> date_le d e \<Longrightarrow> schedule idx c e d pay = []"
  by (subst schedule.simps) simp

lemma schedule_step:
  "valid_date d \<Longrightarrow> date_le d e \<Longrightarrow>
   schedule idx c e d pay =
     \<lparr>CONTRACT_NUMBER = c, DATE_OF_PAYMENT = d, PENSION_AMOUNT = index_payment idx d pay\<rparr>
     # schedule idx c e (next_payment_date d) (index_payment idx d pay)"
  by (subst schedule.simps) simp

lemma schedule_Nil_iff: "valid_date d \<Longrightarrow> schedule idx c e d pay = [] \<longleftrightarrow> \<not> date_le d e"
  by (subst schedule.simps) simp

lemma schedule_contract: "x \<in> set (schedule idx c e d pay) \<Longrightarrow> CONTRACT_NUMBER x = c"
  by (induction idx c e d pay rule: schedule.induct)
     (subst (asm) schedule.simps, auto split: if_splits)

lemma schedule_le_end: "x \<in> set (schedule idx c e d pay) \<Longrightarrow> date_le (DATE_OF_PAYMENT x) e"
  by (induction idx c e d pay rule: schedule.induct)
     (subst (asm) schedule.simps, auto split: if_splits)

lemma schedule_hd:
  "schedule idx c e d pay \<noteq> [] \<Longrightarrow>
   hd (schedule idx c e d pay) =
     \<lparr>CONTRACT_NUMBER = c, DATE_OF_PAYMENT = d, PENSION_AMOUNT = index_payment idx d pay\<rparr>"
  by (subst schedule.simps, subst (asm) schedule.simps) (simp split: if_splits)

lemma schedule_last:
  "valid_date d \<Longrightarrow> schedule idx c e d pay \<noteq> [] \<Longrightarrow>
   \<not> date_le (next_payment_date (DATE_OF_PAYMENT (last (schedule idx c e d pay)))) e"
proof (induction idx c e d pay rule: schedule.induct)
  case (1 idx c row_end payment_date payment)
  from "1.prems" have le: "date_le payment_date row_end"
    by (simp add: schedule_Nil_iff)
  let ?d' = "next_payment_date payment_date"
  let ?p' = "index_payment idx payment_date payment"
  show ?case
  proof (cases "schedule idx c row_end ?d' ?p' = []")
    case True
    with "1.prems" le show ?thesis
      by (simp add: schedule_step schedule_Nil_iff valid_next_payment_date)
  next
    case False
    with "1.prems" le "1.IH" show ?thesis
      by (simp add: schedule_step valid_next_payment_date)
  qed
qed

lemma schedule_consecutive:
  "valid_date d \<Longrightarrow> Suc i < length (schedule idx c e d pay) \<Longrightarrow>
   DATE_OF_PAYMENT (schedule idx c e d pay ! Suc i) =
     next_payment_date (DATE_OF_PAYMENT (schedule idx c e d pay ! i)) \<and>
   valid_date (DATE_OF_PAYMENT (schedule idx c e d pay ! i)) \<and>
   PENSION_AMOUNT (schedule idx c e d pay ! Suc i) =
     index_payment idx (DATE_OF_PAYMENT (schedule idx c e d pay ! Suc i))
       (PENSION_AMOUNT (schedule idx c e d pay ! i))"
proof (induction idx c e d pay arbitrary: i rule: schedule.induct)
  case (1 idx c row_end payment_date payment)
  from "1.prems" have le: "date_le payment_date row_end"
    by (cases "date_le payment_date row_end") (simp_all add: schedule_stop)
  let ?d' = "next_payment_date payment_date"
  let ?p' = "index_payment idx payment_date payment"
  have v': "valid_date ?d'" using "1.prems" by (simp add: valid_next_payment_date)
  have step: "schedule idx c row_end payment_date payment =
     \<lparr>CONTRACT_NUMBER = c, DATE_OF_PAYMENT = payment_date, PENSION_AMOUNT = ?p'\<rparr>
     # schedule idx c row_end ?d' ?p'"
    using "1.prems" le by (simp add: schedule_step)
  show ?case
  proof (cases i)
    case 0
    with "1.prems" step have ne: "schedule idx c row_end ?d' ?p' \<noteq> []" by auto
    have "schedule idx c row_end ?d' ?p' ! 0 = hd (schedule idx c row_end ?d' ?p')"
      using ne by (simp add: hd_conv_nth)
    with 0 step ne "1.prems" show ?thesis
      by (simp add: schedule_hd)
  next
    case (Suc j)
    with "1.prems" step have "Suc j < length (schedule idx c row_end ?d' ?p')" by simp
    with "1.IH" [of j] "1.prems" le v' have
      "DATE_OF_PAYMENT (schedule idx c row_end ?d' ?p' ! Suc j) =
         next_payment_date (DATE_OF_PAYMENT (schedule idx c row_end ?d' ?p' ! j)) \<and>
       valid_date (DATE_OF_PAYMENT (schedule idx c row_end ?d' ?p' ! j)) \<and>
       PENSION_AMOUNT (schedule idx c row_end ?d' ?p' ! Suc j) =
         index_payment idx (DATE_OF_PAYMENT (schedule idx c row_end ?d' ?p' ! Suc j))
           (PENSION_AMOUNT (schedule idx c row_end ?d' ?p' ! j))"
      by simp
    with Suc step show ?thesis by simp
  qed
qed

section \<open>Rounding\<close>











lemma dict_get_indexing_month:
  "dict_get (indexing_month_of p) m 0 = (if m = 1 then PENSION_INDEXING_RATE p else 0)"
  by (simp add: dict_get_def indexing_month_of_def)

section \<open>Dates and amounts along a schedule\<close>

lemma schedule_ge_start:
  "valid_date d \<Longrightarrow> x \<in> set (schedule idx c e d pay) \<Longrightarrow>
   date_key d \<le> date_key (DATE_OF_PAYMENT x)"
proof (induction idx c e d pay rule: schedule.induct)
  case (1 idx c row_end payment_date payment)
  from "1.prems" have le: "date_le payment_date row_end"
    by (cases "date_le payment_date row_end") (simp_all add: schedule_stop)
  from "1.prems"(1) have lt: "date_key payment_date < date_key (next_payment_date payment_date)"
    using date_lt_next_payment_date by (simp add: date_lt_def)
  from "1.prems" le consider
    "DATE_OF_PAYMENT x = payment_date"
    | "x \<in> set (schedule idx c row_end (next_payment_date payment_date)
                  (index_payment idx payment_date payment))"
    by (auto simp: schedule_step)
  then show ?case
  proof cases
    case 1
    then show ?thesis by simp
  next
    case 2
    with "1.IH" "1.prems"(1) le
    have "date_key (next_payment_date payment_date) \<le> date_key (DATE_OF_PAYMENT x)"
      by (simp add: valid_next_payment_date)
    with lt show ?thesis by simp
  qed
qed

lemma schedule_month_end:
  "valid_date d \<Longrightarrow> x \<in> set (schedule idx c e d pay) \<Longrightarrow>
   DATE_OF_PAYMENT x = d \<or> is_month_end (DATE_OF_PAYMENT x)"
proof (induction idx c e d pay rule: schedule.induct)
  case (1 idx c row_end payment_date payment)
  from "1.prems" have le: "date_le payment_date row_end"
    by (cases "date_le payment_date row_end") (simp_all add: schedule_stop)
  from "1.prems" le consider
    "DATE_OF_PAYMENT x = payment_date"
    | "x \<in> set (schedule idx c row_end (next_payment_date payment_date)
                  (index_payment idx payment_date payment))"
    by (auto simp: schedule_step)
  then show ?case
  proof cases
    case 1
    then show ?thesis by simp
  next
    case 2
    with "1.IH" "1.prems"(1) le
    have "DATE_OF_PAYMENT x = next_payment_date payment_date \<or> is_month_end (DATE_OF_PAYMENT x)"
      by (simp add: valid_next_payment_date)
    with "1.prems"(1) show ?thesis
      by (auto simp: is_month_end_next_payment_date)
  qed
qed

lemma schedule_sorted:
  "valid_date d \<Longrightarrow>
   sorted_wrt (\<lambda>a b. date_key (DATE_OF_PAYMENT a) < date_key (DATE_OF_PAYMENT b))
     (schedule idx c e d pay)"
proof (induction idx c e d pay rule: schedule.induct)
  case (1 idx c row_end payment_date payment)
  show ?case
  proof (cases "date_le payment_date row_end")
    case False
    then show ?thesis by (simp add: schedule_stop)
  next
    case True
    from "1.prems" have lt: "date_key payment_date < date_key (next_payment_date payment_date)"
      using date_lt_next_payment_date by (simp add: date_lt_def)
    have v': "valid_date (next_payment_date payment_date)"
      using "1.prems" by (rule valid_next_payment_date)
    have "date_key payment_date < date_key (DATE_OF_PAYMENT x)"
      if "x \<in> set (schedule idx c row_end (next_payment_date payment_date)
                      (index_payment idx payment_date payment))" for x
      using schedule_ge_start [OF v' that] lt by simp
    with True "1.prems" "1.IH" v' show ?thesis
      by (simp add: schedule_step)
  qed
qed





lemma schedule_exit:
  "valid_date d \<Longrightarrow>
   \<not> date_le ((next_payment_date ^^ length (schedule idx c e d pay)) d) e"
proof (induction idx c e d pay rule: schedule.induct)
  case (1 idx c row_end payment_date payment)
  show ?case
  proof (cases "date_le payment_date row_end")
    case False
    then show ?thesis by (simp add: schedule_stop)
  next
    case True
    with 1 show ?thesis
      by (simp add: schedule_step valid_next_payment_date funpow_swap1)
  qed
qed

section \<open>The whole calculation\<close>

lemma preprocess_row_fields:
  "contract (preprocess_row p r) = contract r"
  "pension_amount (preprocess_row p r) = pension_amount r"
  "birthdate (preprocess_row p r) = birthdate r"
  "start_date (preprocess_row p r) = calculate_start_date p r"
  "end_date (preprocess_row p r) =
     plus_relativedelta (birthdate r) \<lparr>rd_years = MAX_AGE p, rd_months = 0, rd_days = 1\<rparr>"
  by (simp_all add: preprocess_row_def row.defs)

lemma last_day_of_anniversary_month:
  "get_last_day_of_month (plus_relativedelta b \<lparr>rd_years = n, rd_months = 0, rd_days = 0\<rparr>) =
     \<lparr>year = year b + n, month = month b, day = days_in_month (year b + n) (month b)\<rparr>"
  by (simp add: get_last_day_of_month_def plus_relativedelta_def plus_MonthEnd_def
      is_month_end_def Let_def)

lemma valid_calculate_start_date:
  assumes "valid_date (START_DATE p)" and "valid_date (birthdate r)"
  shows "valid_date (calculate_start_date p r)"
proof (cases "pension_start r \<le> rd_years (relativedelta_between (START_DATE p) (birthdate r))")
  case True
  with assms(1) show ?thesis by (simp add: calculate_start_date_def)
next
  case False
  with assms(2) days_in_month_pos [of "year (birthdate r) + pension_start r" "month (birthdate r)"]
  show ?thesis
    by (simp add: calculate_start_date_def last_day_of_anniversary_month valid_date_def)
qed

lemma iterrows_loop_schedule:
  "\<forall>r \<in> set rs. valid_date (start_date r) \<Longrightarrow>
   iterrows_loop idx rs data = Some (data @ concat (map (row_schedule idx) rs))"
proof (induction rs arbitrary: data)
  case Nil
  show ?case by simp
next
  case (Cons r rs)
  then show ?case
    by (simp add: payment_loop_schedule row_schedule_def)
qed

lemma calculate_cached: "result_df self = Some df \<Longrightarrow> calculate self = Some (Inl ValueError)"
  by (simp add: calculate_def)

lemma wf_input_rows:
  assumes "wf_input self"
  shows "\<forall>r \<in> set (preprocess_contract_data (calc_params self) (user_data self)).
           valid_date (start_date r)"
  using assms
  by (auto simp: wf_input_def preprocess_contract_data_def preprocess_row_fields
      valid_calculate_start_date)

lemma calculate_fresh:
  assumes "wf_input self" and "result_df self = None"
  shows "calculate self =
     Some (if ledger_data self = [] then Inl KeyError
           else Inr (sort_key entry_key (ledger_data self),
                     self\<lparr>result_df := Some (sort_key entry_key (ledger_data self))\<rparr>))"
  using assms(2) iterrows_loop_schedule [OF wf_input_rows [OF assms(1)], of "indexing_month self" "[]"]
  by (simp add: calculate_def ledger_data_def sort_values_def)

section \<open>Keys of the ledger\<close>

lemma schedule_distinct_keys:
  assumes "valid_date d"
  shows "distinct (map entry_key (schedule idx c e d pay))"
proof -
  have "sorted_wrt (\<lambda>a b. entry_key a < entry_key b) (schedule idx c e d pay)"
    using schedule_sorted [OF assms, of idx c e pay]
    by (rule sorted_wrt_mono_rel [rotated]) (simp add: entry_key_def less_prod_def)
  then have "sorted_wrt (<) (map entry_key (schedule idx c e d pay))"
    by (simp add: sorted_wrt_map)
  then show ?thesis
    by (simp add: strict_sorted_iff)
qed

lemma row_schedule_contract: "x \<in> set (row_schedule idx r) \<Longrightarrow> CONTRACT_NUMBER x = contract r"
  by (simp add: row_schedule_def schedule_contract)

lemma concat_distinct_keys:
  "\<forall>r \<in> set rs. valid_date (start_date r) \<Longrightarrow> distinct (map contract rs) \<Longrightarrow>
   distinct (map entry_key (concat (map (row_schedule idx) rs)))"
proof (induction rs)
  case Nil
  show ?case by simp
next
  case (Cons r rs)
  have "entry_key x \<noteq> entry_key y"
    if "x \<in> set (row_schedule idx r)" and "y \<in> set (concat (map (row_schedule idx) rs))" for x y
  proof -
    from that(2) obtain r' where "r' \<in> set rs" and "y \<in> set (row_schedule idx r')"
      by auto
    with that(1) Cons.prems(2) have "CONTRACT_NUMBER x \<noteq> CONTRACT_NUMBER y"
      by (auto simp: row_schedule_contract)
    then show ?thesis by (simp add: entry_key_def)
  qed
  then have "set (map entry_key (row_schedule idx r)) \<inter>
        set (map entry_key (concat (map (row_schedule idx) rs))) = {}"
    by (fastforce simp del: set_concat)
  moreover have "distinct (map entry_key (row_schedule idx r))"
    using Cons.prems(1) by (simp add: row_schedule_def schedule_distinct_keys)
  moreover have "distinct (map entry_key (concat (map (row_schedule idx) rs)))"
    using Cons by simp
  ultimately show ?case
    by (simp del: set_map set_concat)
qed

lemma ledger_data_distinct_keys:
  assumes "wf_input self" and "distinct (map contract (user_data self))"
  shows "distinct (map entry_key (ledger_data self))"
proof -
  have "map contract (preprocess_contract_data (calc_params self) (user_data self)) =
      map contract (user_data self)"
    by (simp add: preprocess_contract_data_def preprocess_row_fields)
  with assms(2) show ?thesis
    unfolding ledger_data_def
    by (intro concat_distinct_keys wf_input_rows [OF assms(1)]) simp
qed

section \<open>Start and end dates\<close>

lemma plus_years: "plus_relativedelta b \<lparr>rd_years = n, rd_months = 0, rd_days = 0\<rparr> = anniversary b n"
  by (simp add: plus_relativedelta_def anniversary_def Let_def)

lemma plus_years_day:
  "plus_relativedelta b \<lparr>rd_years = n, rd_months = 0, rd_days = 1\<rparr> = next_day (anniversary b n)"
  by (simp add: plus_relativedelta_def anniversary_def Let_def)

lemma get_last_day_of_month_eq: "get_last_day_of_month d = last_day_of_month_containing d"
  by (simp add: get_last_day_of_month_def plus_MonthEnd_def is_month_end_def
      last_day_of_month_containing_def)

lemma valid_anniversary: "valid_date b \<Longrightarrow> valid_date (anniversary b n)"
  using days_in_month_pos [of "year b + n" "month b"]
  by (simp add: valid_date_def anniversary_def)

lemma valid_next_day: "valid_date d \<Longrightarrow> valid_date (next_day d)"
  using days_in_month_pos [of "year d" "month d + 1"] days_in_month_pos [of "year d + 1" 1]
  by (auto simp: valid_date_def next_day_def)

lemma date_lt_next_day: "valid_date d \<Longrightarrow> date_lt d (next_day d)"
  by (auto simp: valid_date_def next_day_def date_lt_def date_key_def less_prod_def)

lemma date_lt_iff:
  "date_lt a b \<longleftrightarrow>
     year a < year b \<or>
     (year a = year b \<and> (month a < month b \<or> (month a = month b \<and> day a < day b)))"
  unfolding date_lt_def date_key_def less_prod_def by auto

lemma date_le_iff:
  "date_le a b \<longleftrightarrow>
     year a < year b \<or>
     (year a = year b \<and> (month a < month b \<or> (month a = month b \<and> day a \<le> day b)))"
  unfolding date_le_def date_key_def less_eq_prod_def less_prod_def by auto

lemma next_day_least:
  assumes "valid_date d" and "valid_date x" and "date_lt d x"
  shows "date_le (next_day d) x"
proof -
  from assms(3) consider
    (y) "year d < year x"
    | (m) "year d = year x" "month d < month x"
    | (dd) "year d = year x" "month d = month x" "day d < day x"
    by (auto simp: date_lt_iff)
  then show ?thesis
  proof cases
    case y
    with assms(1,2) show ?thesis
      by (auto simp: valid_date_def next_day_def date_le_iff)
  next
    case m
    with assms(1,2) show ?thesis
      by (auto simp: valid_date_def next_day_def date_le_iff)
  next
    case dd
    with assms(2) have "day d < days_in_month (year d) (month d)"
      by (simp add: valid_date_def)
    with dd show ?thesis
      by (simp add: next_day_def date_le_iff)
  qed
qed

lemma calculate_after_calculate:
  "calculate self = Some (Inr (df, self')) \<Longrightarrow> calculate self' = Some (Inl ValueError)"
  by (auto simp: calculate_def split: option.splits sum.splits)

section \<open>Whole elapsed years\<close>

lemma set_months_split:
  "12 * rd_years (set_months k) + rd_months (set_months k) = k"
  "\<bar>rd_months (set_months k)\<bar> \<le> 11"
  "rd_days (set_months k) = 0"
proof -
  have a: "12 * (\<bar>k\<bar> div 12) + \<bar>k\<bar> mod 12 = \<bar>k\<bar>" by simp
  have b: "0 \<le> \<bar>k\<bar> mod 12" "\<bar>k\<bar> mod 12 < 12" by simp_all
  show "12 * rd_years (set_months k) + rd_months (set_months k) = k"
  proof (cases "k < 0")
    case True
    then have "\<bar>k\<bar> = - k" "sgn k = - 1" by simp_all
    moreover have "12 * (- k div 12) + - k mod 12 = - k" by simp
    ultimately show ?thesis
      by (simp add: set_months_def) presburger
  next
    case False
    with a show ?thesis by (cases "k = 0") (simp_all add: set_months_def)
  qed
  show "\<bar>rd_months (set_months k)\<bar> \<le> 11"
  proof -
    have "- k mod 12 \<le> 11" "k mod 12 \<le> 11" by presburger+
    then show ?thesis
      by (cases "k < 0"; cases "k = 0") (simp_all add: set_months_def abs_mult)
  qed
  show "rd_days (set_months k) = 0"
    by (simp add: set_months_def)
qed

lemma plus_set_months:
  fixes k :: int
  assumes "1 \<le> month b" and "month b \<le> 12"
    and d_def: "d = plus_relativedelta b (set_months k)"
  shows "1 \<le> month d" and "month d \<le> 12"
    and "12 * year d + month d = 12 * year b + month b + k"
    and "day d = min (days_in_month (year d) (month d)) (day b)"
proof -
  let ?Y = "rd_years (set_months k)" and ?M = "rd_months (set_months k)"
  have k: "12 * ?Y + ?M = k" and M: "\<bar>?M\<bar> \<le> 11" and D: "rd_days (set_months k) = 0"
    by (rule set_months_split)+
  have fields:
    "year d = (if ?M \<noteq> 0 \<and> month b + ?M > 12 then year b + ?Y + 1
               else if ?M \<noteq> 0 \<and> month b + ?M < 1 then year b + ?Y - 1 else year b + ?Y)"
    "month d = (if ?M \<noteq> 0 \<and> month b + ?M > 12 then month b + ?M - 12
               else if ?M \<noteq> 0 \<and> month b + ?M < 1 then month b + ?M + 12 else month b + ?M)"
    "day d = min (days_in_month (year d) (month d)) (day b)"
    unfolding d_def by (simp_all add: plus_relativedelta_def Let_def D)
  from fields(3) show "day d = min (days_in_month (year d) (month d)) (day b)" .
  from fields(2) assms(1,2) M show "1 \<le> month d" "month d \<le> 12"
    by (auto split: if_splits)
  from fields(1,2) k show "12 * year d + month d = 12 * year b + month b + k"
    by (auto split: if_splits)
qed

lemma year_month_unique:
  fixes y m y' m' :: int
  assumes "12 * y + m = 12 * y' + m'" "1 \<le> m" "m \<le> 12" "1 \<le> m'" "m' \<le> 12"
  shows "y = y' \<and> m = m'"
  using assms by presburger

lemma rd_years_nonneg: "0 \<le> m \<Longrightarrow> rd_years (set_months m) = m div 12"
  by (simp add: set_months_def)

lemma plus_months_between:
  assumes "valid_date dt1" and "valid_date dt2"
  defines "months \<equiv> (year dt1 - year dt2) * 12 + (month dt1 - month dt2)"
  shows "year (plus_relativedelta dt2 (set_months (months + j))) * 12
           + month (plus_relativedelta dt2 (set_months (months + j)))
         = year dt1 * 12 + month dt1 + j"
    and "1 \<le> month (plus_relativedelta dt2 (set_months (months + j)))"
    and "month (plus_relativedelta dt2 (set_months (months + j))) \<le> 12"
    and "day (plus_relativedelta dt2 (set_months (months + j))) =
           min (days_in_month (year (plus_relativedelta dt2 (set_months (months + j))))
                              (month (plus_relativedelta dt2 (set_months (months + j)))))
               (day dt2)"
proof -
  from assms(2) have m: "1 \<le> month dt2" "month dt2 \<le> 12"
    by (simp_all add: valid_date_def)
  note p = plus_set_months [OF m refl, of "months + j"]
  from p(3) show "year (plus_relativedelta dt2 (set_months (months + j))) * 12
           + month (plus_relativedelta dt2 (set_months (months + j)))
         = year dt1 * 12 + month dt1 + j"
    by (simp add: months_def)
  from p(1) show "1 \<le> month (plus_relativedelta dt2 (set_months (months + j)))" .
  from p(2) show "month (plus_relativedelta dt2 (set_months (months + j))) \<le> 12" .
  from p(4) show "day (plus_relativedelta dt2 (set_months (months + j))) =
           min (days_in_month (year (plus_relativedelta dt2 (set_months (months + j))))
                              (month (plus_relativedelta dt2 (set_months (months + j)))))
               (day dt2)" .
qed

lemma relativedelta_adjust_once:
  assumes "valid_date dt1" and "valid_date dt2"
  defines "months \<equiv> (year dt1 - year dt2) * 12 + (month dt1 - month dt2)"
  shows "\<not> date_lt dt1 (plus_relativedelta dt2 (set_months (months - 1)))"
    and "\<not> date_lt (plus_relativedelta dt2 (set_months (months + 1))) dt1"
proof -
  from assms(1) have m1: "1 \<le> month dt1" "month dt1 \<le> 12"
    by (simp_all add: valid_date_def)
  let ?a = "plus_relativedelta dt2 (set_months (months - 1))"
  let ?b = "plus_relativedelta dt2 (set_months (months + 1))"
  have a: "year ?a * 12 + month ?a = year dt1 * 12 + month dt1 - 1" "1 \<le> month ?a" "month ?a \<le> 12"
    using plus_months_between [OF assms(1,2), of "- 1"] by (simp_all add: months_def)
  have b: "year ?b * 12 + month ?b = year dt1 * 12 + month dt1 + 1" "1 \<le> month ?b" "month ?b \<le> 12"
    using plus_months_between [OF assms(1,2), of 1] by (simp_all add: months_def)
  from a m1 have "year ?a < year dt1 \<or> (year ?a = year dt1 \<and> month ?a < month dt1)"
    by presburger
  then show "\<not> date_lt dt1 ?a"
    by (auto simp: date_lt_iff)
  from b m1 have "year dt1 < year ?b \<or> (year dt1 = year ?b \<and> month dt1 < month ?b)"
    by presburger
  then show "\<not> date_lt ?b dt1"
    by (auto simp: date_lt_iff)
qed

lemma relativedelta_years_whole:
  assumes r: "valid_date report" and b: "valid_date birth" and le: "date_le birth report"
  shows "rd_years (relativedelta_between report birth) = whole_years_elapsed report birth"
proof -
  define months where "months = (year report - year birth) * 12 + (month report - month birth)"
  define dtm where "dtm = plus_relativedelta birth (set_months months)"
  define n where "n = year report - year birth"
  from r have mr: "1 \<le> month report" "month report \<le> 12" by (simp_all add: valid_date_def)
  from b have mb: "1 \<le> month birth" "month birth \<le> 12" and db: "day birth \<le> days_in_month (year birth) (month birth)"
    by (simp_all add: valid_date_def)
  have "year dtm * 12 + month dtm = year report * 12 + month report" "1 \<le> month dtm" "month dtm \<le> 12"
    using plus_months_between [OF r b, of 0] by (simp_all add: dtm_def months_def)
  with mr have ym: "year dtm = year report" "month dtm = month report"
    by presburger+
  have dd: "day dtm = min (days_in_month (year report) (month report)) (day birth)"
    using plus_months_between(4) [OF r b, of 0] ym by (simp add: dtm_def months_def)
  from le have nlt: "\<not> date_lt report birth"
    by (auto simp: date_lt_iff date_le_iff)
  from le have ord: "year birth < year report \<or>
      (year birth = year report \<and> (month birth < month report \<or>
         (month birth = month report \<and> day birth \<le> day report)))"
    by (simp add: date_le_iff)
  have lt_dtm: "date_lt report dtm \<longleftrightarrow>
      day report < min (days_in_month (year report) (month report)) (day birth)"
    by (simp add: date_lt_iff ym dd)
  have rm: "relativedelta_months report birth = (if date_lt report dtm then months - 1 else months)"
    using nlt by (simp add: relativedelta_months_def months_def dtm_def Let_def)
  have ann: "date_lt report (anniversary birth n) \<longleftrightarrow>
      month report < month birth \<or>
      (month report = month birth \<and>
       day report < min (days_in_month (year report) (month birth)) (day birth))"
    by (simp add: date_lt_iff anniversary_def n_def)
  have months_eq: "months = 12 * n + (month report - month birth)"
    by (simp add: months_def n_def)
  consider (gt) "month birth < month report"
    | (lt) "month report < month birth"
    | (eq) "month report = month birth"
    by linarith
  then have "(if date_lt report dtm then months - 1 else months) \<ge> 0 \<and>
      (if date_lt report dtm then months - 1 else months) div 12 =
        n - (if date_lt report (anniversary birth n) then 1 else 0)"
  proof cases
    case gt
    from ord have "0 \<le> n" by (auto simp: n_def)
    with gt mr mb months_eq ann show ?thesis
      by (auto simp: lt_dtm)
  next
    case lt
    with ord have "1 \<le> n" by (auto simp: n_def)
    with lt mr mb months_eq ann show ?thesis
      by (auto simp: lt_dtm)
  next
    case eq
    from eq ann lt_dtm have same: "date_lt report (anniversary birth n) \<longleftrightarrow> date_lt report dtm"
      by simp
    from eq months_eq have m12: "months = 12 * n"
      by simp
    show ?thesis
    proof (cases "date_lt report dtm")
      case True
      then have d: "day report < day birth"
        by (simp add: lt_dtm)
      with ord eq have "1 \<le> n"
        by (auto simp: n_def)
      then have "0 \<le> 12 * n - 1" and "(12 * n - 1) div 12 = n - 1"
        by presburger+
      with True same m12 show ?thesis
        by simp
    next
      case False
      from ord eq have "0 \<le> n"
        by (auto simp: n_def)
      with False same m12 show ?thesis
        by simp
    qed
  qed
  then show ?thesis
    by (simp add: relativedelta_between_def rm rd_years_nonneg whole_years_elapsed_def n_def)
qed

section \<open>Evaluating on concrete input\<close>

lemmas date_eval = mk_date_def valid_date_def days_in_month_def isleap_def date_le_def date_lt_def
  date_key_def less_eq_prod_def less_prod_def is_month_end_def next_payment_date_def
  get_last_day_of_month_def plus_MonthEnd_def plus_relativedelta_def Let_def

lemmas amount_eval = index_payment_def np_round_def rint_def dict_get_def indexing_month_of_def

lemma schedule_nth_0:
  "schedule idx c e d pay \<noteq> [] \<Longrightarrow>
   schedule idx c e d pay ! 0 =
     \<lparr>CONTRACT_NUMBER = c, DATE_OF_PAYMENT = d, PENSION_AMOUNT = index_payment idx d pay\<rparr>"
  using schedule_hd [of idx c e d pay] by (simp add: hd_conv_nth)

lemmas calc_eval = calculate_def init_def preprocess_contract_data_def preprocess_row_def row.defs
  calculate_start_date_def relativedelta_between_def relativedelta_months_def set_months_def
  next_day_def sort_values_def entry_key_def


lemma example_preprocess:
  "preprocess_contract_data example_params example_rows =
     [\<lparr>contract = 2, birthdate = mk_date 1960 2 20, pension_start = 60, pension_amount = 2000,
       start_date = mk_date 2024 1 1, end_date = mk_date 2024 2 21\<rparr>,
      \<lparr>contract = 1, birthdate = mk_date 1960 5 15, pension_start = 60, pension_amount = 1000,
       start_date = mk_date 2024 1 1, end_date = mk_date 2024 5 16\<rparr>]"
  by (simp add: example_params_def example_rows_def calc_eval date_eval)

lemma example_calculate:
  "calculate (init example_rows example_params) =
     Some (Inr (example_ledger, (init example_rows example_params)\<lparr>result_df := Some example_ledger\<rparr>))"
  unfolding calculate_def
  by (simp add: init_def example_preprocess)
     (simp add: payment_loop.simps date_eval amount_eval example_params_def sort_values_def
        entry_key_def example_ledger_def init_def)

lemma example_wf: "wf_input (init example_rows example_params)"
  by (simp add: wf_input_def init_def example_rows_def example_params_def date_eval)

lemma example_distinct: "distinct (map contract (user_data (init example_rows example_params)))"
  by (simp add: init_def example_rows_def)

section \<open>The claims\<close>

text \<open>
  C7. The indexing dictionary of a calculator holds the configured rate for month 1 only:
  looking a month up with default 0 gives the indexing rate for January and 0 for every
  other month, and no month makes the lookup fail.
\<close>

theorem indexing_rate_january_only:
  "dict_get (indexing_month (init rows p)) m 0 = (if m = 1 then PENSION_INDEXING_RATE p else 0)"
  by (simp add: init_def dict_get_indexing_month)

theorem indexing_rate_january_only_witness:
  "dict_get (indexing_month (init [] \<lparr>START_DATE = mk_date 2024 1 31,
      PENSION_INDEXING_RATE = 5 / 100, MAX_AGE = 80\<rparr>)) 1 0 = 5 / 100 \<and>
   dict_get (indexing_month (init [] \<lparr>START_DATE = mk_date 2024 1 31,
      PENSION_INDEXING_RATE = 5 / 100, MAX_AGE = 80\<rparr>)) 2 0 = 0"
  using indexing_rate_january_only [of "[]" "\<lparr>START_DATE = mk_date 2024 1 31,
      PENSION_INDEXING_RATE = 5 / 100, MAX_AGE = 80\<rparr>" 1]
    indexing_rate_january_only [of "[]" "\<lparr>START_DATE = mk_date 2024 1 31,
      PENSION_INDEXING_RATE = 5 / 100, MAX_AGE = 80\<rparr>" 2]
  by simp

text \<open>
  C5. The loop of one contract ends, and every entry it appends has a payment date not
  after the contract's end date. It appends nothing exactly when the start date is already
  after the end date, and otherwise the date following the last entry's date is after the end
  date: that date failed the loop test and was not emitted.
\<close>

theorem payment_loop_within_end_date:
  assumes "valid_date start"
  shows "\<exists>es. payment_loop idx c row_end start pay data = Some (data @ es) \<and>
      (\<forall>x \<in> set es. date_le (DATE_OF_PAYMENT x) row_end) \<and>
      (es = [] \<longleftrightarrow> \<not> date_le start row_end) \<and>
      (es \<noteq> [] \<longrightarrow> \<not> date_le (next_payment_date (DATE_OF_PAYMENT (last es))) row_end)"
proof (intro exI conjI)
  show "payment_loop idx c row_end start pay data = Some (data @ schedule idx c row_end start pay)"
    using assms by (rule payment_loop_schedule)
  show "\<forall>x \<in> set (schedule idx c row_end start pay). date_le (DATE_OF_PAYMENT x) row_end"
    by (simp add: schedule_le_end)
  show "schedule idx c row_end start pay = [] \<longleftrightarrow> \<not> date_le start row_end"
    using assms by (rule schedule_Nil_iff)
  show "schedule idx c row_end start pay \<noteq> [] \<longrightarrow>
      \<not> date_le (next_payment_date (DATE_OF_PAYMENT (last (schedule idx c row_end start pay)))) row_end"
    using assms by (simp add: schedule_last)
qed

theorem payment_loop_within_end_date_witness:
  "valid_date (mk_date 2024 1 31) \<and>
   (\<exists>es. payment_loop [1 \<mapsto> 5 / 100] 7 (mk_date 2024 3 15) (mk_date 2024 1 31) 1000 [] = Some es \<and>
      es \<noteq> [] \<and>
      (\<forall>x \<in> set es. date_le (DATE_OF_PAYMENT x) (mk_date 2024 3 15)) \<and>
      \<not> date_le (next_payment_date (DATE_OF_PAYMENT (last es))) (mk_date 2024 3 15))"
proof -
  have h: "valid_date (mk_date 2024 1 31)"
    by (simp add: date_eval)
  have le: "date_le (mk_date 2024 1 31) (mk_date 2024 3 15)"
    by (simp add: date_eval)
  from payment_loop_within_end_date [OF h, of "[1 \<mapsto> 5 / 100]" 7 "mk_date 2024 3 15" 1000 "[]"]
  obtain es where
    "payment_loop [1 \<mapsto> 5 / 100] 7 (mk_date 2024 3 15) (mk_date 2024 1 31) 1000 [] = Some es"
    "\<forall>x \<in> set es. date_le (DATE_OF_PAYMENT x) (mk_date 2024 3 15)"
    "es = [] \<longleftrightarrow> \<not> date_le (mk_date 2024 1 31) (mk_date 2024 3 15)"
    "es \<noteq> [] \<longrightarrow> \<not> date_le (next_payment_date (DATE_OF_PAYMENT (last es))) (mk_date 2024 3 15)"
    by auto
  with h le show ?thesis by blast
qed





text \<open>
  C9. On well-formed input the calculation returns: it gives a ledger or raises an error, and
  the loop of every contract ends, whatever list it starts from.
\<close>

theorem calculate_terminates:
  assumes "wf_input self"
  shows "(\<exists>res. calculate self = Some res) \<and>
     (\<forall>r \<in> set (preprocess_contract_data (calc_params self) (user_data self)).
        (\<forall>data. \<exists>out. payment_loop (indexing_month self) (contract r) (end_date r)
                         (start_date r) (pension_amount r) data = Some out) \<and>
        (\<exists>n. \<not> date_le ((next_payment_date ^^ n) (start_date r)) (end_date r)))"
proof
  show "\<exists>res. calculate self = Some res"
  proof (cases "result_df self")
    case None
    with assms show ?thesis by (simp add: calculate_fresh)
  next
    case (Some df)
    then show ?thesis by (simp add: calculate_cached)
  qed
  show "\<forall>r \<in> set (preprocess_contract_data (calc_params self) (user_data self)).
        (\<forall>data. \<exists>out. payment_loop (indexing_month self) (contract r) (end_date r)
                         (start_date r) (pension_amount r) data = Some out) \<and>
        (\<exists>n. \<not> date_le ((next_payment_date ^^ n) (start_date r)) (end_date r))"
  proof
    fix r assume "r \<in> set (preprocess_contract_data (calc_params self) (user_data self))"
    with wf_input_rows [OF assms] have v: "valid_date (start_date r)"
      by simp
    from v have "\<forall>data. \<exists>out. payment_loop (indexing_month self) (contract r) (end_date r)
                         (start_date r) (pension_amount r) data = Some out"
      by (simp add: payment_loop_schedule)
    moreover from schedule_exit [OF v]
    have "\<exists>n. \<not> date_le ((next_payment_date ^^ n) (start_date r)) (end_date r)"
      by blast
    ultimately show "(\<forall>data. \<exists>out. payment_loop (indexing_month self) (contract r) (end_date r)
                         (start_date r) (pension_amount r) data = Some out) \<and>
        (\<exists>n. \<not> date_le ((next_payment_date ^^ n) (start_date r)) (end_date r))"
      by simp
  qed
qed

theorem calculate_terminates_witness:
  "wf_input (init example_rows example_params) \<and>
   calculate (init example_rows example_params) =
     Some (Inr (example_ledger,
                (init example_rows example_params)\<lparr>result_df := Some example_ledger\<rparr>)) \<and>
   (\<exists>out. payment_loop (indexing_month (init example_rows example_params)) 1
            (mk_date 2024 5 16) (mk_date 2024 1 1) 1000 [] = Some out) \<and>
   (\<exists>n. \<not> date_le ((next_payment_date ^^ n) (mk_date 2024 1 1)) (mk_date 2024 5 16))"
proof -
  have r: "\<lparr>contract = 1, birthdate = mk_date 1960 5 15, pension_start = 60, pension_amount = 1000,
       start_date = mk_date 2024 1 1, end_date = mk_date 2024 5 16\<rparr>
     \<in> set (preprocess_contract_data (calc_params (init example_rows example_params))
              (user_data (init example_rows example_params)))"
    by (simp add: init_def example_preprocess)
  from calculate_terminates [OF example_wf] r
  have "(\<exists>out. payment_loop (indexing_month (init example_rows example_params)) 1
            (mk_date 2024 5 16) (mk_date 2024 1 1) 1000 [] = Some out) \<and>
        (\<exists>n. \<not> date_le ((next_payment_date ^^ n) (mk_date 2024 1 1)) (mk_date 2024 5 16))"
    by fastforce
  with example_wf example_calculate show ?thesis by simp
qed

text \<open>
  C8. With contract numbers that identify the rows, an entry of the ledger comes before
  another exactly when its pair of payment date and contract number is the smaller one.
\<close>

theorem ledger_order:
  assumes "wf_input self" and "distinct (map contract (user_data self))"
    and "calculate self = Some (Inr (df, self'))"
  shows "\<forall>i < length df. \<forall>j < length df. i < j \<longleftrightarrow> entry_key (df ! i) < entry_key (df ! j)"
proof -
  from assms(3) have fresh: "result_df self = None"
    by (cases "result_df self") (simp_all add: calculate_cached)
  with assms(1,3) have df: "df = sort_key entry_key (ledger_data self)"
    by (simp add: calculate_fresh split: if_splits)
  have "sorted (map entry_key df)"
    by (simp add: df)
  moreover have "distinct (map entry_key df)"
    using ledger_data_distinct_keys [OF assms(1,2)] by (simp add: df distinct_map)
  ultimately have strict: "sorted_wrt (<) (map entry_key df)"
    by (simp add: strict_sorted_iff)
  have up: "entry_key (df ! i) < entry_key (df ! j)" if "i < j" "j < length df" for i j
    using strict that by (simp add: sorted_wrt_iff_nth_less)
  show ?thesis
  proof (intro allI impI iffI)
    fix i j assume "i < length df" "j < length df" "i < j"
    then show "entry_key (df ! i) < entry_key (df ! j)" by (simp add: up)
  next
    fix i j assume b: "i < length df" "j < length df" and lt: "entry_key (df ! i) < entry_key (df ! j)"
    show "i < j"
    proof (rule ccontr)
      assume "\<not> i < j"
      then consider "i = j" | "j < i" by linarith
      then show False
      proof cases
        case 1
        with lt show False by simp
      next
        case 2
        with up [of j i] b lt show False by simp
      qed
    qed
  qed
qed

theorem ledger_order_witness:
  "wf_input (init example_rows example_params) \<and>
   distinct (map contract (user_data (init example_rows example_params))) \<and>
   calculate (init example_rows example_params) =
     Some (Inr (example_ledger,
                (init example_rows example_params)\<lparr>result_df := Some example_ledger\<rparr>)) \<and>
   length example_ledger = 5 \<and>
   entry_key (example_ledger ! 0) < entry_key (example_ledger ! 1) \<and>
   entry_key (example_ledger ! 1) < entry_key (example_ledger ! 2) \<and>
   \<not> entry_key (example_ledger ! 2) < entry_key (example_ledger ! 1)"
proof -
  have len: "length example_ledger = 5"
    by (simp add: example_ledger_def)
  from ledger_order [OF example_wf example_distinct example_calculate]
  have ord: "i < 5 \<Longrightarrow> j < 5 \<Longrightarrow>
      i < j \<longleftrightarrow> entry_key (example_ledger ! i) < entry_key (example_ledger ! j)" for i j
    by (simp add: len)
  from ord [of 0 1] ord [of 1 2] ord [of 2 1] len example_wf example_distinct example_calculate
  show ?thesis
    by simp
qed

text \<open>
  C6. The end date of every contract is the day after the birth date moved on by the maximum
  age in years: a calendar date, later than that anniversary, with no calendar date between
  the two. No month-end adjustment is applied to it.
\<close>

theorem end_date_exact:
  "end_date (preprocess_row p r) = next_day (anniversary (birthdate r) (MAX_AGE p)) \<and>
   map end_date (preprocess_contract_data p rows) =
     map (\<lambda>r. next_day (anniversary (birthdate r) (MAX_AGE p))) rows \<and>
   (valid_date (birthdate r) \<longrightarrow>
      valid_date (end_date (preprocess_row p r)) \<and>
      date_lt (anniversary (birthdate r) (MAX_AGE p)) (end_date (preprocess_row p r)) \<and>
      (\<forall>x. valid_date x \<and> date_lt (anniversary (birthdate r) (MAX_AGE p)) x \<longrightarrow>
           date_le (end_date (preprocess_row p r)) x))"
proof (intro conjI impI allI)
  show e: "end_date (preprocess_row p r) = next_day (anniversary (birthdate r) (MAX_AGE p))" for r
    by (simp only: preprocess_row_fields plus_years_day)
  show "map end_date (preprocess_contract_data p rows) =
     map (\<lambda>r. next_day (anniversary (birthdate r) (MAX_AGE p))) rows"
    by (simp add: preprocess_contract_data_def e)
  assume v: "valid_date (birthdate r)"
  then have va: "valid_date (anniversary (birthdate r) (MAX_AGE p))"
    by (rule valid_anniversary)
  from va show "valid_date (end_date (preprocess_row p r))"
    by (simp add: e valid_next_day)
  from va show "date_lt (anniversary (birthdate r) (MAX_AGE p)) (end_date (preprocess_row p r))"
    by (simp add: e date_lt_next_day)
  fix x assume "valid_date x \<and> date_lt (anniversary (birthdate r) (MAX_AGE p)) x"
  with va show "date_le (end_date (preprocess_row p r)) x"
    by (simp add: e next_day_least)
qed

theorem end_date_exact_witness:
  "end_date (preprocess_row example_params
      \<lparr>contract = 1, birthdate = mk_date 1960 5 15, pension_start = 60, pension_amount = 1000\<rparr>)
     = mk_date 2024 5 16 \<and>
   valid_date (mk_date 1960 5 15) \<and>
   anniversary (mk_date 1960 5 15) (MAX_AGE example_params) = mk_date 2024 5 15 \<and>
   date_lt (mk_date 2024 5 15) (mk_date 2024 5 16) \<and>
   \<not> is_month_end (mk_date 2024 5 16)"
proof -
  let ?r = "\<lparr>contract = 1, birthdate = mk_date 1960 5 15, pension_start = 60,
             pension_amount = 1000\<rparr>"
  have v: "valid_date (birthdate ?r)"
    by (simp add: date_eval)
  have a: "anniversary (mk_date 1960 5 15) (MAX_AGE example_params) = mk_date 2024 5 15"
    by (simp add: anniversary_def example_params_def date_eval)
  have n: "next_day (mk_date 2024 5 15) = mk_date 2024 5 16"
    by (simp add: next_day_def date_eval)
  from end_date_exact [of example_params ?r "[]"] v a n
  show ?thesis
    by (simp add: date_eval)
qed

text \<open>
  C2. Calling \<open>calculate\<close> a second time on the object the first call has filled raises
  \<open>ValueError\<close> from the truth test of the cached frame, instead of returning the cached
  ledger.
\<close>

theorem calculate_second_call_raises:
  "calculate (init example_rows example_params) =
     Some (Inr (example_ledger, (init example_rows example_params)\<lparr>result_df := Some example_ledger\<rparr>)) \<and>
   calculate ((init example_rows example_params)\<lparr>result_df := Some example_ledger\<rparr>) =
     Some (Inl ValueError)"
  using example_calculate by (simp add: calculate_cached)

text \<open>
  C1, as the specification states it, fails: for a contract already past the pension age the
  start date is the report date itself, also when the report date is not the last day of its
  month. Here the report date is 1 January 2024 and the start date is that day, not
  31 January.
\<close>

theorem start_date_not_normalized:
  "pension_start \<lparr>contract = 1, birthdate = mk_date 1960 5 15, pension_start = 60,
                   pension_amount = 1000\<rparr>
     \<le> whole_years_elapsed (START_DATE example_params) (mk_date 1960 5 15) \<and>
   calculate_start_date example_params
       \<lparr>contract = 1, birthdate = mk_date 1960 5 15, pension_start = 60, pension_amount = 1000\<rparr>
     = mk_date 2024 1 1 \<and>
   get_last_day_of_month (START_DATE example_params) = mk_date 2024 1 31 \<and>
   calculate_start_date example_params
       \<lparr>contract = 1, birthdate = mk_date 1960 5 15, pension_start = 60, pension_amount = 1000\<rparr>
     \<noteq> get_last_day_of_month (START_DATE example_params)"
  by (simp add: whole_years_elapsed_def anniversary_def example_params_def calc_eval date_eval)

text \<open>
  C1, amended. The start date is the report date, unchanged, when the years of the
  \<open>relativedelta\<close> from the birth date to the report date reach the pension age, and
  otherwise the last day of the month containing the birth date moved on by the pension age.
  For a birth date not after the report date those years are the whole elapsed years.
\<close>

theorem calculate_start_date_resolved:
  "calculate_start_date p r =
     (if pension_start r \<le> rd_years (relativedelta_between (START_DATE p) (birthdate r))
      then START_DATE p
      else last_day_of_month_containing (anniversary (birthdate r) (pension_start r))) \<and>
   (valid_date (START_DATE p) \<and> valid_date (birthdate r) \<and> date_le (birthdate r) (START_DATE p)
      \<longrightarrow> rd_years (relativedelta_between (START_DATE p) (birthdate r)) =
           whole_years_elapsed (START_DATE p) (birthdate r))"
  by (simp add: calculate_start_date_def plus_years get_last_day_of_month_eq
      relativedelta_years_whole)

theorem calculate_start_date_resolved_witness:
  "valid_date (START_DATE example_params) \<and> valid_date (mk_date 1960 5 15) \<and>
   date_le (mk_date 1960 5 15) (START_DATE example_params) \<and>
   whole_years_elapsed (START_DATE example_params) (mk_date 1960 5 15) = 63 \<and>
   calculate_start_date example_params
       \<lparr>contract = 1, birthdate = mk_date 1960 5 15, pension_start = 60, pension_amount = 1000\<rparr>
     = START_DATE example_params \<and>
   calculate_start_date example_params
       \<lparr>contract = 3, birthdate = mk_date 1960 5 15, pension_start = 70, pension_amount = 1000\<rparr>
     = mk_date 2030 5 31"
proof -
  let ?r = "\<lparr>contract = 1, birthdate = mk_date 1960 5 15, pension_start = 60,
             pension_amount = 1000\<rparr>"
  let ?q = "\<lparr>contract = 3, birthdate = mk_date 1960 5 15, pension_start = 70,
             pension_amount = 1000\<rparr>"
  have v: "valid_date (START_DATE example_params)" "valid_date (mk_date 1960 5 15)"
    "date_le (mk_date 1960 5 15) (START_DATE example_params)"
    by (simp_all add: example_params_def date_eval)
  have w: "whole_years_elapsed (START_DATE example_params) (mk_date 1960 5 15) = 63"
    by (simp add: whole_years_elapsed_def anniversary_def example_params_def date_eval)
  have l: "last_day_of_month_containing (anniversary (mk_date 1960 5 15) 70) = mk_date 2030 5 31"
    by (simp add: last_day_of_month_containing_def anniversary_def date_eval)
  from calculate_start_date_resolved [of example_params ?r] v w
  have 1: "calculate_start_date example_params ?r = START_DATE example_params"
    by simp
  from calculate_start_date_resolved [of example_params ?q] v w l
  have 2: "calculate_start_date example_params ?q = mk_date 2030 5 31"
    by simp
  from v w 1 2 show ?thesis by simp
qed

text \<open>
  C3, as the specification states it, fails: the first payment date of a contract already
  past the pension age is the report date, which need not be the last day of a month.
\<close>

theorem first_payment_date_not_month_end:
  "calculate (init example_rows example_params) =
     Some (Inr (example_ledger,
                (init example_rows example_params)\<lparr>result_df := Some example_ledger\<rparr>)) \<and>
   DATE_OF_PAYMENT (example_ledger ! 0) = mk_date 2024 1 1 \<and>
   \<not> is_month_end (DATE_OF_PAYMENT (example_ledger ! 0))"
  using example_calculate by (simp add: example_ledger_def date_eval)

text \<open>
  C3, amended. The first entry of a contract carries the start date. Every later entry
  carries the date the loop computes from the date before it: the last day of the following
  calendar month, so the month number grows by one and the dates increase strictly. When the
  start date is the last day of its month, every payment date is one.
\<close>

theorem payment_dates_monthly:
  assumes "valid_date start"
  shows "\<exists>es. payment_loop idx c row_end start pay data = Some (data @ es) \<and>
     (es \<noteq> [] \<longrightarrow> DATE_OF_PAYMENT (es ! 0) = start) \<and>
     (\<forall>i. Suc i < length es \<longrightarrow>
        DATE_OF_PAYMENT (es ! Suc i) = next_payment_date (DATE_OF_PAYMENT (es ! i)) \<and>
        is_month_end (DATE_OF_PAYMENT (es ! Suc i)) \<and>
        year (DATE_OF_PAYMENT (es ! Suc i)) * 12 + month (DATE_OF_PAYMENT (es ! Suc i)) =
          year (DATE_OF_PAYMENT (es ! i)) * 12 + month (DATE_OF_PAYMENT (es ! i)) + 1 \<and>
        date_lt (DATE_OF_PAYMENT (es ! i)) (DATE_OF_PAYMENT (es ! Suc i))) \<and>
     (is_month_end start \<longrightarrow> (\<forall>x \<in> set es. is_month_end (DATE_OF_PAYMENT x)))"
proof (intro exI conjI)
  let ?es = "schedule idx c row_end start pay"
  show "payment_loop idx c row_end start pay data = Some (data @ ?es)"
    using assms by (rule payment_loop_schedule)
  show "?es \<noteq> [] \<longrightarrow> DATE_OF_PAYMENT (?es ! 0) = start"
    by (simp add: schedule_nth_0)
  show "is_month_end start \<longrightarrow> (\<forall>x \<in> set ?es. is_month_end (DATE_OF_PAYMENT x))"
  proof (intro impI ballI)
    fix x assume me: "is_month_end start" and x: "x \<in> set ?es"
    from schedule_month_end [OF assms x] me show "is_month_end (DATE_OF_PAYMENT x)"
      by (elim disjE) simp_all
  qed
  show "\<forall>i. Suc i < length ?es \<longrightarrow>
        DATE_OF_PAYMENT (?es ! Suc i) = next_payment_date (DATE_OF_PAYMENT (?es ! i)) \<and>
        is_month_end (DATE_OF_PAYMENT (?es ! Suc i)) \<and>
        year (DATE_OF_PAYMENT (?es ! Suc i)) * 12 + month (DATE_OF_PAYMENT (?es ! Suc i)) =
          year (DATE_OF_PAYMENT (?es ! i)) * 12 + month (DATE_OF_PAYMENT (?es ! i)) + 1 \<and>
        date_lt (DATE_OF_PAYMENT (?es ! i)) (DATE_OF_PAYMENT (?es ! Suc i))"
  proof (intro allI impI)
    fix i assume i: "Suc i < length ?es"
    let ?d = "DATE_OF_PAYMENT (?es ! i)"
    from schedule_consecutive [OF assms i]
    have nxt: "DATE_OF_PAYMENT (?es ! Suc i) = next_payment_date ?d" and v: "valid_date ?d"
      by simp_all
    have "year (next_payment_date ?d) * 12 + month (next_payment_date ?d) =
        year ?d * 12 + month ?d + 1"
      using v by (simp add: next_payment_date_fields)
    with nxt v show "DATE_OF_PAYMENT (?es ! Suc i) = next_payment_date ?d \<and>
        is_month_end (DATE_OF_PAYMENT (?es ! Suc i)) \<and>
        year (DATE_OF_PAYMENT (?es ! Suc i)) * 12 + month (DATE_OF_PAYMENT (?es ! Suc i)) =
          year ?d * 12 + month ?d + 1 \<and>
        date_lt ?d (DATE_OF_PAYMENT (?es ! Suc i))"
      by (simp add: is_month_end_next_payment_date date_lt_next_payment_date)
  qed
qed

theorem payment_dates_monthly_witness:
  "valid_date (mk_date 2024 1 31) \<and> is_month_end (mk_date 2024 1 31) \<and>
   (\<exists>es. payment_loop [1 \<mapsto> 5 / 100] 7 (mk_date 2024 3 15) (mk_date 2024 1 31) 1000 [] = Some es \<and>
      length es = 2 \<and>
      DATE_OF_PAYMENT (es ! 0) = mk_date 2024 1 31 \<and>
      DATE_OF_PAYMENT (es ! Suc 0) = next_payment_date (DATE_OF_PAYMENT (es ! 0)) \<and>
      is_month_end (DATE_OF_PAYMENT (es ! Suc 0)) \<and>
      date_lt (DATE_OF_PAYMENT (es ! 0)) (DATE_OF_PAYMENT (es ! Suc 0)) \<and>
      (\<forall>x \<in> set es. is_month_end (DATE_OF_PAYMENT x)))"
proof -
  have h: "valid_date (mk_date 2024 1 31)"
    by (simp add: date_eval)
  have me: "is_month_end (mk_date 2024 1 31)"
    by (simp add: date_eval)
  have run: "payment_loop [1 \<mapsto> 5 / 100] 7 (mk_date 2024 3 15) (mk_date 2024 1 31) 1000 [] =
     Some [\<lparr>CONTRACT_NUMBER = 7, DATE_OF_PAYMENT = mk_date 2024 1 31, PENSION_AMOUNT = 1050\<rparr>,
           \<lparr>CONTRACT_NUMBER = 7, DATE_OF_PAYMENT = mk_date 2024 2 29, PENSION_AMOUNT = 1050\<rparr>]"
    by (simp add: payment_loop.simps date_eval amount_eval)
  from payment_dates_monthly [OF h, of "[1 \<mapsto> 5 / 100]" 7 "mk_date 2024 3 15" 1000 "[]"]
  obtain es where es:
    "payment_loop [1 \<mapsto> 5 / 100] 7 (mk_date 2024 3 15) (mk_date 2024 1 31) 1000 [] = Some es"
    "es \<noteq> [] \<longrightarrow> DATE_OF_PAYMENT (es ! 0) = mk_date 2024 1 31"
    "\<forall>i. Suc i < length es \<longrightarrow>
        DATE_OF_PAYMENT (es ! Suc i) = next_payment_date (DATE_OF_PAYMENT (es ! i)) \<and>
        is_month_end (DATE_OF_PAYMENT (es ! Suc i)) \<and>
        year (DATE_OF_PAYMENT (es ! Suc i)) * 12 + month (DATE_OF_PAYMENT (es ! Suc i)) =
          year (DATE_OF_PAYMENT (es ! i)) * 12 + month (DATE_OF_PAYMENT (es ! i)) + 1 \<and>
        date_lt (DATE_OF_PAYMENT (es ! i)) (DATE_OF_PAYMENT (es ! Suc i))"
    "is_month_end (mk_date 2024 1 31) \<longrightarrow> (\<forall>x \<in> set es. is_month_end (DATE_OF_PAYMENT x))"
    by auto
  from es(1) run have len: "length es = 2" "es \<noteq> []" "Suc 0 < length es"
    by auto
  from h me es len show ?thesis by blast
qed

end
